theory Spec2Isabelle
  imports Main "HOL-Library.Word"
begin

section \<open>The entity-component registry of ECS.h\<close>

text \<open>
  A shallow embedding of \<^verbatim>\<open>Src/ECS/ECS.h\<close>. Objects created with \<^verbatim>\<open>new\<close> are named by
  their address (a \<open>nat\<close>); a raw pointer is an \<open>address option\<close>, \<open>None\<close> being
  \<^verbatim>\<open>nullptr\<close>. The two function-local statics of the type-identity functions are the
  fields of a registry that is passed through every call that reads them. A call of a
  virtual hook of a component, and a call of \<^verbatim>\<open>Entity::update\<close> or \<^verbatim>\<open>Entity::draw\<close>, is
  recorded at the end of a chronological log; what an overriding hook does beyond being
  called is outside ECS.h and is not modelled. Indexing \<^verbatim>\<open>std::array\<close> or \<^verbatim>\<open>std::bitset\<close>
  past the end and dereferencing a null pointer are undefined in C++; here they are the
  error values \<open>OutOfBounds\<close> and \<open>NullDeref\<close>.
\<close>

subsection \<open>Type identities\<close>

type_synonym address = nat

text \<open>\<^verbatim>\<open>using ComponentID = std::size_t\<close>. The counter grows by one per component kind, a
  number fixed at compile time, so it is read as a natural number.\<close>

type_synonym ComponentID = nat

record 'k Registry =
  lastID :: ComponentID
  typeID :: "'k \<rightharpoonup> ComponentID"

text \<open>Before the first call \<^verbatim>\<open>lastID\<close> is 0 and no \<^verbatim>\<open>typeID\<close> is initialised.\<close>

definition Registry_init :: "'k Registry" where
  "Registry_init = \<lparr>lastID = 0, typeID = Map.empty\<rparr>"

text \<open>\<^verbatim>\<open>static ComponentID lastID = 0; return lastID++;\<close>\<close>

definition getComponentTypeID :: "'k Registry \<Rightarrow> ComponentID \<times> 'k Registry" where
  "getComponentTypeID r = (lastID r, r\<lparr>lastID := lastID r + 1\<rparr>)"

text \<open>\<^verbatim>\<open>static ComponentID typeID = getComponentTypeID(); return typeID;\<close> The initialiser of
  the static of the instantiation for kind \<open>k\<close> runs on the first call only.\<close>

definition getComponentTypeID_T :: "'k \<Rightarrow> 'k Registry \<Rightarrow> ComponentID \<times> 'k Registry" where
  "getComponentTypeID_T k r =
     (case typeID r k of
        Some i \<Rightarrow> (i, r)
      | None \<Rightarrow>
          (let (i, r') = getComponentTypeID r
           in (i, r'\<lparr>typeID := (typeID r')(k \<mapsto> i)\<rparr>)))"

text \<open>A sequence of calls \<^verbatim>\<open>getComponentTypeID<K>()\<close>, one per element of the list, with
  the identities they return.\<close>

fun requests :: "'k list \<Rightarrow> 'k Registry \<Rightarrow> ComponentID list \<times> 'k Registry" where
  "requests [] r = ([], r)"
| "requests (k # ks) r =
     (let (i, r') = getComponentTypeID_T k r;
          (is, r'') = requests ks r'
      in (i # is, r''))"

text \<open>The kinds of a sequence of requests in the order of their first use.\<close>

definition first_use :: "'k list \<Rightarrow> 'k list" where
  "first_use ks = rev (remdups (rev ks))"

text \<open>The position of the first occurrence of an element in a list.\<close>

fun index_of :: "'a list \<Rightarrow> 'a \<Rightarrow> nat" where
  "index_of [] x = 0"
| "index_of (y # ys) x = (if x = y then 0 else Suc (index_of ys x))"

text \<open>The registry in which the kinds of \<open>us\<close> have been given the identities
  \<open>0, 1, ...\<close> in the order of the list, and no other kind has one.\<close>

definition registry_of :: "'k list \<Rightarrow> 'k Registry" where
  "registry_of us =
     \<lparr>lastID = length us,
      typeID = (\<lambda>k. if k \<in> set us then Some (index_of us k) else None)\<rparr>"

subsection \<open>Components\<close>

definition maxComponents :: nat where
  "maxComponents = 32"

type_synonym ComponentBitSet = "32 word"

type_synonym ComponentArray = "ComponentID \<Rightarrow> address option"

datatype error = OutOfBounds | NullDeref

datatype event = CInit address | CUpdate address | CDraw address
  | EUpdate address | EDraw address

text \<open>A component object: its address, the kind it was constructed as, and the
  \<^verbatim>\<open>Entity* entity\<close> back-reference.\<close>

record 'k Component =
  addr :: address
  kind :: 'k
  entity :: "address option"

definition Component_init :: "'k Component \<Rightarrow> event list \<Rightarrow> event list" where
  "Component_init c tr = tr @ [CInit (addr c)]"

definition Component_update :: "'k Component \<Rightarrow> event list \<Rightarrow> event list" where
  "Component_update c tr = tr @ [CUpdate (addr c)]"

definition Component_draw :: "'k Component \<Rightarrow> event list \<Rightarrow> event list" where
  "Component_draw c tr = tr @ [CDraw (addr c)]"

subsection \<open>Entities\<close>

record 'k Entity =
  self :: address
  active :: bool
  components :: "'k Component list"
  componentArray :: ComponentArray
  componentBitSet :: ComponentBitSet

text \<open>The state outside the entities: the statics of the registry and the log.\<close>

record 'k Proc =
  registry :: "'k Registry"
  trace :: "event list"

definition Proc_init :: "'k Proc" where
  "Proc_init = \<lparr>registry = Registry_init, trace = []\<rparr>"

text \<open>\<^verbatim>\<open>new Entity()\<close>, the only construction in the repository (in \<^verbatim>\<open>Manager::addEntity\<close>):
  the class has no user-provided constructor, so the object is zero-initialised, which
  makes every slot of the array null, and then \<^verbatim>\<open>active\<close> is set to true, the vector is
  empty and the bitset is all zero.\<close>

definition Entity_new :: "address \<Rightarrow> 'k Entity" where
  "Entity_new a =
     \<lparr>self = a, active = True, components = [],
      componentArray = (\<lambda>_. None), componentBitSet = 0\<rparr>"

text \<open>\<^verbatim>\<open>for (auto& c : components) c->update();\<close>\<close>

definition Entity_update :: "'k Entity \<Rightarrow> event list \<Rightarrow> event list" where
  "Entity_update e tr =
     foldl (\<lambda>t c. Component_update c t) (tr @ [EUpdate (self e)]) (components e)"

text \<open>\<^verbatim>\<open>for (auto& c : components) c->draw();\<close>\<close>

definition Entity_draw :: "'k Entity \<Rightarrow> event list \<Rightarrow> event list" where
  "Entity_draw e tr =
     foldl (\<lambda>t c. Component_draw c t) (tr @ [EDraw (self e)]) (components e)"

definition isActive :: "'k Entity \<Rightarrow> bool" where
  "isActive e = active e"

definition destroy :: "'k Entity \<Rightarrow> 'k Entity" where
  "destroy e = e\<lparr>active := False\<rparr>"

text \<open>\<^verbatim>\<open>std::bitset<32>(unsigned long long)\<close> keeps the low 32 bits of its argument.\<close>

definition ComponentBitSet_of :: "nat \<Rightarrow> ComponentBitSet" where
  "ComponentBitSet_of v = word_of_nat v"

text \<open>
  \<^verbatim>\<open>return ComponentBitSet(getComponentTypeID<T>);\<close> The body builds a temporary bitset
  from the function \<^verbatim>\<open>getComponentTypeID<T>\<close> itself, which it does not call, and returns
  that temporary as a \<^verbatim>\<open>bool\<close>. It names neither the member \<^verbatim>\<open>componentBitSet\<close> nor any
  other member of the entity. Standard C++ has neither the conversion of a function to
  an integer nor that of a bitset to \<^verbatim>\<open>bool\<close> (an instantiation of this member template
  is rejected by a conforming compiler), so both are parameters here: \<open>fn_value k\<close> is
  the integer the function of kind \<open>k\<close> is read as, \<open>as_bool\<close> the truth value of a
  bitset.
\<close>

definition hasComponent ::
  "('k \<Rightarrow> nat) \<Rightarrow> (ComponentBitSet \<Rightarrow> bool) \<Rightarrow> 'k Entity \<Rightarrow> 'k \<Rightarrow> bool" where
  "hasComponent fn_value as_bool e k = as_bool (ComponentBitSet_of (fn_value k))"

text \<open>
  \<^verbatim>\<open>addComponent<T>\<close>: \<open>c\<close> is the address that \<^verbatim>\<open>new T(...)\<close> returns. The component gets
  its back-reference, is appended to the owned vector, is stored in the array and the
  bitset under the identity of its kind (each of the two statements calls
  \<^verbatim>\<open>getComponentTypeID<T>()\<close>), and then its \<^verbatim>\<open>init()\<close> is called.
\<close>

definition addComponent ::
  "'k \<Rightarrow> address \<Rightarrow> 'k Entity \<Rightarrow> 'k Proc \<Rightarrow> error + (address \<times> 'k Entity \<times> 'k Proc)" where
  "addComponent k c e s =
     (let comp = \<lparr>addr = c, kind = k, entity = Some (self e)\<rparr>;
          e1 = e\<lparr>components := components e @ [comp]\<rparr>;
          (i, r1) = getComponentTypeID_T k (registry s)
      in if \<not> i < maxComponents then Inl OutOfBounds
         else
           let e2 = e1\<lparr>componentArray := (componentArray e1)(i := Some c)\<rparr>;
               (j, r2) = getComponentTypeID_T k r1
           in if \<not> j < maxComponents then Inl OutOfBounds
              else
                let e3 = e2\<lparr>componentBitSet := set_bit j (componentBitSet e2)\<rparr>
                in Inr (c, e3, s\<lparr>registry := r2, trace := Component_init comp (trace s)\<rparr>))"

text \<open>\<^verbatim>\<open>auto ptr(componentArray[getComponentTypeID<T>()]); return *static_cast<T*>(ptr);\<close>\<close>

definition getComponent ::
  "'k \<Rightarrow> 'k Entity \<Rightarrow> 'k Proc \<Rightarrow> (error + address) \<times> 'k Proc" where
  "getComponent k e s =
     (let (i, r1) = getComponentTypeID_T k (registry s);
          s1 = s\<lparr>registry := r1\<rparr>
      in if \<not> i < maxComponents then (Inl OutOfBounds, s1)
         else
           (case componentArray e i of
              None \<Rightarrow> (Inl NullDeref, s1)
            | Some p \<Rightarrow> (Inr p, s1)))"

text \<open>The operations of the public interface of an entity, and one call of each. The
  two conversions that \<open>hasComponent\<close> needs are fixed for a run.\<close>

datatype 'k entity_op =
  OpUpdate | OpDraw | OpIsActive | OpDestroy | OpHasComponent 'k
  | OpAddComponent 'k address | OpGetComponent 'k

fun entity_step ::
  "('k \<Rightarrow> nat) \<Rightarrow> (ComponentBitSet \<Rightarrow> bool) \<Rightarrow> 'k entity_op \<Rightarrow> 'k Entity \<times> 'k Proc
     \<Rightarrow> error + ('k Entity \<times> 'k Proc)" where
  "entity_step f b OpUpdate (e, s) = Inr (e, s\<lparr>trace := Entity_update e (trace s)\<rparr>)"
| "entity_step f b OpDraw (e, s) = Inr (e, s\<lparr>trace := Entity_draw e (trace s)\<rparr>)"
| "entity_step f b OpIsActive (e, s) = (let r = isActive e in Inr (e, s))"
| "entity_step f b OpDestroy (e, s) = Inr (destroy e, s)"
| "entity_step f b (OpHasComponent k) (e, s) = (let r = hasComponent f b e k in Inr (e, s))"
| "entity_step f b (OpAddComponent k c) (e, s) =
     (case addComponent k c e s of Inl err \<Rightarrow> Inl err | Inr (p, e', s') \<Rightarrow> Inr (e', s'))"
| "entity_step f b (OpGetComponent k) (e, s) =
     (case getComponent k e s of (Inl err, s') \<Rightarrow> Inl err | (Inr p, s') \<Rightarrow> Inr (e, s'))"

fun entity_run ::
  "('k \<Rightarrow> nat) \<Rightarrow> (ComponentBitSet \<Rightarrow> bool) \<Rightarrow> 'k entity_op list \<Rightarrow> 'k Entity \<times> 'k Proc
     \<Rightarrow> error + ('k Entity \<times> 'k Proc)" where
  "entity_run f b [] st = Inr st"
| "entity_run f b (x # xs) st =
     (case entity_step f b x st of Inl err \<Rightarrow> Inl err | Inr st' \<Rightarrow> entity_run f b xs st')"

subsection \<open>The manager\<close>

record 'k Manager =
  entities :: "'k Entity list"

definition Manager_new :: "'k Manager" where
  "Manager_new = \<lparr>entities = []\<rparr>"

text \<open>\<^verbatim>\<open>for (auto& e : entities) e->update();\<close>\<close>

definition Manager_update :: "'k Manager \<Rightarrow> event list \<Rightarrow> event list" where
  "Manager_update m tr = foldl (\<lambda>t e. Entity_update e t) tr (entities m)"

text \<open>\<^verbatim>\<open>for (auto& e : entities) e->draw();\<close>\<close>

definition Manager_draw :: "'k Manager \<Rightarrow> event list \<Rightarrow> event list" where
  "Manager_draw m tr = foldl (\<lambda>t e. Entity_draw e t) tr (entities m)"

text \<open>\<^verbatim>\<open>addEntity\<close>: \<open>a\<close> is the address that \<^verbatim>\<open>new Entity()\<close> returns.\<close>

definition addEntity :: "address \<Rightarrow> 'k Manager \<Rightarrow> 'k Entity \<times> 'k Manager" where
  "addEntity a m = (Entity_new a, m\<lparr>entities := entities m @ [Entity_new a]\<rparr>)"

text \<open>
  \<^verbatim>\<open>refresh\<close> is the erase-remove idiom on a vector of \<^verbatim>\<open>std::unique_ptr<Entity>\<close>. The
  library algorithm is written out, since it moves the pointers: an element of the vector
  is \<open>Some\<close> of the entity it owns, or \<open>None\<close> once it has been moved from.
  \<^verbatim>\<open>std::find_if\<close> looks for the first element that satisfies the predicate, and the
  predicate dereferences the pointer.
\<close>

type_synonym 'a unique_ptr = "'a option"

function find_if :: "('a \<Rightarrow> bool) \<Rightarrow> 'a unique_ptr list \<Rightarrow> nat \<Rightarrow> error + nat" where
  "find_if p v first =
     (if first < length v then
        (case v ! first of
           None \<Rightarrow> Inl NullDeref
         | Some x \<Rightarrow> if p x then Inr first else find_if p v (Suc first))
      else Inr (length v))"
  by pat_completeness auto
termination
  by (relation "measure (\<lambda>(p, v, first). length v - first)") auto

declare find_if.simps [simp del]

text \<open>The loop of \<^verbatim>\<open>std::remove_if\<close>:
  \<^verbatim>\<open>for (; first != last; ++first) if (!pred(*first)) { *result = std::move(*first); ++result; }\<close>
  The move assignment gives the pointer of \<^verbatim>\<open>*first\<close> to \<^verbatim>\<open>*result\<close> (whose old entity is
  deleted) and leaves \<^verbatim>\<open>*first\<close> null.\<close>

function remove_loop ::
  "('a \<Rightarrow> bool) \<Rightarrow> 'a unique_ptr list \<Rightarrow> nat \<Rightarrow> nat \<Rightarrow> error + ('a unique_ptr list \<times> nat)" where
  "remove_loop p v result first =
     (if first < length v then
        (case v ! first of
           None \<Rightarrow> Inl NullDeref
         | Some x \<Rightarrow>
             if \<not> p x
             then remove_loop p (v[result := v ! first, first := None]) (Suc result) (Suc first)
             else remove_loop p v result (Suc first))
      else Inr (v, result))"
  by pat_completeness auto
termination
  by (relation "measure (\<lambda>(p, v, result, first). length v - first)") auto

declare remove_loop.simps [simp del]

text \<open>\<^verbatim>\<open>std::remove_if(begin, end, pred)\<close>: the vector afterwards and the index of the new
  logical end.\<close>

definition remove_if ::
  "('a \<Rightarrow> bool) \<Rightarrow> 'a unique_ptr list \<Rightarrow> error + ('a unique_ptr list \<times> nat)" where
  "remove_if p v =
     (case find_if p v 0 of
        Inl err \<Rightarrow> Inl err
      | Inr first \<Rightarrow>
          if first = length v then Inr (v, first)
          else remove_loop p v first (Suc first))"

text \<open>\<^verbatim>\<open>vector::erase(first, last)\<close> on indices.\<close>

definition erase :: "'a list \<Rightarrow> nat \<Rightarrow> nat \<Rightarrow> 'a list" where
  "erase v first lst = take first v @ drop lst v"

text \<open>
  \<^verbatim>\<open>entities.erase(std::remove_if(begin, end, [](e) { return !e->isActive(); }), end)\<close>.
  The vector that \<open>refresh\<close> leaves is the manager's vector again, every element of
  which \<^verbatim>\<open>update\<close> and \<^verbatim>\<open>draw\<close> dereference: a null element left in it is an error.
\<close>

definition refresh :: "'k Manager \<Rightarrow> error + 'k Manager" where
  "refresh m =
     (case remove_if (\<lambda>e. \<not> isActive e) (map Some (entities m)) of
        Inl err \<Rightarrow> Inl err
      | Inr (v, first) \<Rightarrow>
          (case those (erase v first (length v)) of
             None \<Rightarrow> Inl NullDeref
           | Some es \<Rightarrow> Inr (m\<lparr>entities := es\<rparr>)))"

text \<open>The components that can be reached from the manager: those of its entities.\<close>

definition Manager_components :: "'k Manager \<Rightarrow> 'k Component list" where
  "Manager_components m = concat (map components (entities m))"

subsection \<open>Reading the log and a run\<close>

text \<open>The entities whose \<^verbatim>\<open>update()\<close> was called, in the order of the calls, and the same
  for \<^verbatim>\<open>draw()\<close>.\<close>

fun entity_updates :: "event list \<Rightarrow> address list" where
  "entity_updates [] = []"
| "entity_updates (EUpdate a # evs) = a # entity_updates evs"
| "entity_updates (ev # evs) = entity_updates evs"

fun entity_draws :: "event list \<Rightarrow> address list" where
  "entity_draws [] = []"
| "entity_draws (EDraw a # evs) = a # entity_draws evs"
| "entity_draws (ev # evs) = entity_draws evs"

text \<open>Whether an event is a call of \<^verbatim>\<open>update()\<close>, of an entity or of a component, and
  the same for \<^verbatim>\<open>draw()\<close>.\<close>

fun update_event :: "event \<Rightarrow> bool" where
  "update_event (EUpdate a) = True"
| "update_event (CUpdate a) = True"
| "update_event ev = False"

fun draw_event :: "event \<Rightarrow> bool" where
  "draw_event (EDraw a) = True"
| "draw_event (CDraw a) = True"
| "draw_event ev = False"

text \<open>The addresses of the components that the \<^verbatim>\<open>addComponent\<close> calls of a sequence of
  calls construct, in the order of the calls.\<close>

fun added :: "'k entity_op list \<Rightarrow> address list" where
  "added [] = []"
| "added (OpAddComponent k c # xs) = c # added xs"
| "added (x # xs) = added xs"

text \<open>The bitset and the array of an entity agree: a bit is set exactly where the slot
  holds a pointer.\<close>

definition index_agrees :: "'k Entity \<Rightarrow> bool" where
  "index_agrees e =
     list_all (\<lambda>i. bit (componentBitSet e) i = (componentArray e i \<noteq> None)) [0..<maxComponents]"



section \<open>The active flag\<close>

lemma entity_step_inactive:
  "entity_step f b x (e, s) = Inr (e', s') \<Longrightarrow> \<not> isActive e \<Longrightarrow> \<not> isActive e'"
  by (cases x)
    (auto simp: isActive_def destroy_def addComponent_def getComponent_def Let_def
      split: sum.splits prod.splits if_splits option.splits)

lemma entity_run_inactive:
  "entity_run f b xs (e, s) = Inr (e', s') \<Longrightarrow> \<not> isActive e \<Longrightarrow> \<not> isActive e'"
proof (induction xs arbitrary: e s)
  case Nil
  then show ?case by simp
next
  case (Cons x xs)
  from Cons.prems(1) obtain e1 s1 where
    step: "entity_step f b x (e, s) = Inr (e1, s1)" and
    rest: "entity_run f b xs (e1, s1) = Inr (e', s')"
    by (auto split: sum.splits)
  from entity_step_inactive [OF step Cons.prems(2)] have "\<not> isActive e1" .
  with Cons.IH [OF rest] show ?case .
qed

text \<open>
  Claim C6. The flag is true in a newly constructed entity. \<open>destroy\<close> makes it false and
  changes no other field, and a second \<open>destroy\<close> changes nothing at all. Once the flag is
  false, it is false after every sequence of calls of the interface that returns.
  \<open>isActive\<close> is the value of the flag.
\<close>

theorem active_flag_lifecycle:
  "isActive (Entity_new a :: 'k Entity)
   \<and> \<not> isActive (destroy e)
   \<and> destroy e = e\<lparr>active := False\<rparr>
   \<and> destroy (destroy e) = destroy e
   \<and> isActive e = active e
   \<and> (\<not> isActive e \<longrightarrow> entity_run f b xs (e, s) = Inr (e', s') \<longrightarrow> \<not> isActive e')"
  using entity_run_inactive [of f b xs e s e' s']
  by (simp add: isActive_def destroy_def Entity_new_def)

theorem active_flag_lifecycle_witness:
  "\<exists>e' s'. \<not> isActive (destroy (Entity_new 1 :: string Entity))
     \<and> entity_run (\<lambda>_. 1) (\<lambda>w. w \<noteq> 0)
          [OpUpdate, OpAddComponent ''Position'' 100, OpHasComponent ''Position'', OpDraw, OpDestroy]
          (destroy (Entity_new 1), Proc_init) = Inr (e', s')
     \<and> \<not> isActive e'"
proof -
  let ?e = "destroy (Entity_new 1 :: string Entity)"
  obtain e' s' where run:
    "entity_run (\<lambda>_. 1) (\<lambda>w. w \<noteq> 0)
       [OpUpdate, OpAddComponent ''Position'' 100, OpHasComponent ''Position'', OpDraw, OpDestroy]
       (?e, Proc_init) = Inr (e', s')"
    by (simp add: addComponent_def getComponentTypeID_T_def getComponentTypeID_def
        Proc_init_def Registry_init_def maxComponents_def Let_def)
  have inact: "\<not> isActive ?e"
    by (simp add: isActive_def destroy_def)
  from active_flag_lifecycle [of _ ?e "\<lambda>_. 1" "\<lambda>w. w \<noteq> 0" _ Proc_init e' s'] run inact
  show ?thesis by blast
qed

section \<open>The type-identity registry\<close>

lemma index_of_append_in: "x \<in> set us \<Longrightarrow> index_of (us @ vs) x = index_of us x"
  by (induction us) auto

lemma index_of_append_notin:
  "x \<notin> set us \<Longrightarrow> index_of (us @ vs) x = length us + index_of vs x"
  by (induction us) auto

lemma index_of_less: "x \<in> set us \<Longrightarrow> index_of us x < length us"
  by (induction us) auto

lemma nth_index_of: "x \<in> set us \<Longrightarrow> us ! index_of us x = x"
  by (induction us) auto

lemma index_of_nth: "distinct us \<Longrightarrow> i < length us \<Longrightarrow> index_of us (us ! i) = i"
proof (induction us arbitrary: i)
  case Nil
  then show ?case by simp
next
  case (Cons u us)
  then show ?case by (cases i) auto
qed

lemma index_of_inj:
  "x \<in> set us \<Longrightarrow> y \<in> set us \<Longrightarrow> index_of us x = index_of us y \<Longrightarrow> x = y"
  using nth_index_of by metis

lemma first_use_snoc:
  "first_use (ks @ [k]) = (if k \<in> set ks then first_use ks else first_use ks @ [k])"
  by (simp add: first_use_def)

lemma set_first_use: "set (first_use ks) = set ks"
  by (simp add: first_use_def)

lemma distinct_first_use: "distinct (first_use ks)"
  by (simp add: first_use_def)

lemma length_first_use: "length (first_use ks) = card (set ks)"
  using distinct_card [OF distinct_first_use [of ks]] by (simp add: set_first_use)

lemma Registry_init_of: "Registry_init = registry_of []"
  by (simp add: Registry_init_def registry_of_def)

lemma getComponentTypeID_T_known:
  "k \<in> set us \<Longrightarrow> getComponentTypeID_T k (registry_of us) = (index_of us k, registry_of us)"
  by (simp add: getComponentTypeID_T_def registry_of_def)

lemma getComponentTypeID_T_fresh:
  assumes "k \<notin> set us"
  shows "getComponentTypeID_T k (registry_of us) = (length us, registry_of (us @ [k]))"
proof -
  have "(\<lambda>x. if x \<in> set us then Some (index_of us x) else None)(k \<mapsto> length us)
      = (\<lambda>x. if x \<in> set (us @ [k]) then Some (index_of (us @ [k]) x) else None)"
    using assms by (auto simp: fun_eq_iff index_of_append_in index_of_append_notin)
  with assms show ?thesis
    by (simp add: getComponentTypeID_T_def getComponentTypeID_def registry_of_def)
qed

lemma requests_append:
  "requests (ks @ ks') r =
     (let (is, r') = requests ks r; (js, r'') = requests ks' r' in (is @ js, r''))"
  by (induction ks arbitrary: r) (auto split: prod.splits)

lemma requests_first_use:
  "requests ks Registry_init = (map (index_of (first_use ks)) ks, registry_of (first_use ks))"
proof (induction ks rule: rev_induct)
  case Nil
  then show ?case by (simp add: first_use_def Registry_init_of)
next
  case (snoc k ks)
  show ?case
  proof (cases "k \<in> set ks")
    case True
    then have "k \<in> set (first_use ks)" by (simp add: set_first_use)
    with True snoc show ?thesis
      by (simp add: requests_append first_use_snoc getComponentTypeID_T_known)
  next
    case False
    then have notin: "k \<notin> set (first_use ks)" by (simp add: set_first_use)
    have old: "map (index_of (first_use ks @ [k])) ks = map (index_of (first_use ks)) ks"
      by (simp add: index_of_append_in set_first_use)
    from False snoc notin old show ?thesis
      by (simp add: requests_append first_use_snoc getComponentTypeID_T_fresh
          index_of_append_notin)
  qed
qed

lemma requests_ids: "fst (requests ks Registry_init) = map (index_of (first_use ks)) ks"
  by (simp add: requests_first_use)

lemma requests_registry: "snd (requests ks Registry_init) = registry_of (first_use ks)"
  by (simp add: requests_first_use)

lemma index_of_first_use_image:
  "index_of (first_use ks) ` set ks = {0..<card (set ks)}"
proof -
  let ?us = "first_use ks"
  have "index_of ?us ` set ?us = {0..<length ?us}"
  proof (intro equalityI subsetI)
    fix i assume "i \<in> index_of ?us ` set ?us"
    then show "i \<in> {0..<length ?us}" by (auto simp: index_of_less)
  next
    fix i assume "i \<in> {0..<length ?us}"
    then have i: "i < length ?us" by simp
    then have "index_of ?us (?us ! i) = i"
      by (simp add: index_of_nth distinct_first_use)
    moreover from i have "?us ! i \<in> set ?us" by simp
    ultimately show "i \<in> index_of ?us ` set ?us" by (metis imageI)
  qed
  then show ?thesis by (simp add: set_first_use length_first_use)
qed

text \<open>
  Claim C5. From the initial registry, any sequence \<open>ks\<close> of requests
  \<^verbatim>\<open>getComponentTypeID<K>()\<close> returns for each request the position of its kind in the
  order of first use. So two requests return the same identity exactly when they are for
  the same kind, the identities handed out are exactly \<open>0, ..., n - 1\<close> for \<open>n\<close>
  distinct kinds, and the counter ends at \<open>n\<close>.
\<close>

theorem type_identity_dense:
  "fst (requests ks Registry_init) = map (index_of (first_use ks)) ks
   \<and> (\<forall>i<length ks. \<forall>j<length ks.
        (fst (requests ks Registry_init) ! i = fst (requests ks Registry_init) ! j)
          = (ks ! i = ks ! j))
   \<and> set (fst (requests ks Registry_init)) = {0..<card (set ks)}
   \<and> lastID (snd (requests ks Registry_init)) = card (set ks)"
proof (intro conjI allI impI)
  show "fst (requests ks Registry_init) = map (index_of (first_use ks)) ks"
    by (rule requests_ids)
next
  fix i j assume i: "i < length ks" and j: "j < length ks"
  then have "ks ! i \<in> set (first_use ks)" "ks ! j \<in> set (first_use ks)"
    by (simp_all add: set_first_use)
  then have "(index_of (first_use ks) (ks ! i) = index_of (first_use ks) (ks ! j))
      = (ks ! i = ks ! j)"
    using index_of_inj by metis
  with i j show "(fst (requests ks Registry_init) ! i = fst (requests ks Registry_init) ! j)
      = (ks ! i = ks ! j)"
    by (simp add: requests_ids)
next
  show "set (fst (requests ks Registry_init)) = {0..<card (set ks)}"
    by (simp add: requests_ids index_of_first_use_image)
next
  show "lastID (snd (requests ks Registry_init)) = card (set ks)"
    by (simp add: requests_registry registry_of_def length_first_use)
qed

theorem type_identity_dense_witness:
  "(0::nat) < length [''Position'', ''Sprite'', ''Position'', ''Collider'']
   \<and> (2::nat) < length [''Position'', ''Sprite'', ''Position'', ''Collider'']
   \<and> fst (requests [''Position'', ''Sprite'', ''Position'', ''Collider''] Registry_init)
       = [0, 1, 0, 2]
   \<and> fst (requests [''Position'', ''Sprite'', ''Position'', ''Collider''] Registry_init) ! 0
       = fst (requests [''Position'', ''Sprite'', ''Position'', ''Collider''] Registry_init) ! 2
   \<and> set (fst (requests [''Position'', ''Sprite'', ''Position'', ''Collider''] Registry_init))
       = {0..<3}
   \<and> lastID (snd (requests [''Position'', ''Sprite'', ''Position'', ''Collider'']
        (Registry_init :: string Registry))) = 3"
proof -
  let ?ks = "[''Position'', ''Sprite'', ''Position'', ''Collider'']"
  have c: "card (set ?ks) = 3" unfolding List.card_set by simp
  have f: "map (index_of (first_use ?ks)) ?ks = [0, 1, 0, 2]"
    by (simp add: first_use_def)
  from type_identity_dense [of ?ks] have
    a: "fst (requests ?ks Registry_init) = map (index_of (first_use ?ks)) ?ks"
    and b: "\<forall>i<length ?ks. \<forall>j<length ?ks.
        (fst (requests ?ks Registry_init) ! i = fst (requests ?ks Registry_init) ! j)
          = (?ks ! i = ?ks ! j)"
    and d: "set (fst (requests ?ks Registry_init)) = {0..<card (set ?ks)}"
    and e: "lastID (snd (requests ?ks Registry_init)) = card (set ?ks)"
    by blast+
  have b': "fst (requests ?ks Registry_init) ! 0 = fst (requests ?ks Registry_init) ! 2"
    using b [rule_format, of 0 2] by simp
  have d': "set (fst (requests ?ks Registry_init)) = {0..<3}"
    using d unfolding c .
  have e': "lastID (snd (requests ?ks (Registry_init :: string Registry))) = 3"
    using e unfolding c .
  from a f have a': "fst (requests ?ks Registry_init) = [0, 1, 0, 2]"
    by (rule trans)
  from a' b' d' e' show ?thesis by simp
qed

section \<open>The capacity of the component table\<close>

lemma addComponent_OutOfBounds:
  "(addComponent k c e s = Inl OutOfBounds)
     = (\<not> fst (getComponentTypeID_T k (registry s)) < maxComponents)"
  by (auto simp: addComponent_def getComponentTypeID_T_def getComponentTypeID_def Let_def
      split: prod.splits option.splits if_splits)

lemma addComponent_error: "addComponent k c e s = Inl err \<Longrightarrow> err = OutOfBounds"
  by (auto simp: addComponent_def Let_def split: prod.splits if_splits)

lemma getComponent_OutOfBounds:
  "(fst (getComponent k e s) = Inl OutOfBounds)
     = (\<not> fst (getComponentTypeID_T k (registry s)) < maxComponents)"
  by (auto simp: getComponent_def Let_def split: prod.splits option.splits if_splits)

lemma request_after_requests:
  "fst (getComponentTypeID_T k (snd (requests ks Registry_init)))
     = index_of (first_use (ks @ [k])) k"
proof (cases "k \<in> set ks")
  case True
  then show ?thesis
    by (simp add: requests_registry getComponentTypeID_T_known set_first_use first_use_snoc)
next
  case False
  then show ?thesis
    by (simp add: requests_registry getComponentTypeID_T_fresh set_first_use first_use_snoc
        index_of_append_notin)
qed

text \<open>
  Claim C9. Let the registry be in a state reached from the initial one by requests for
  the kinds \<open>ks\<close>. If \<open>ks\<close> together with \<open>k\<close> has at most 32 distinct kinds, then
  \<^verbatim>\<open>addComponent<k>\<close> returns and neither it nor \<^verbatim>\<open>getComponent<k>\<close> indexes the array or the
  bitset out of bounds. If 32 or more distinct kinds are registered and \<open>k\<close> is a new
  one, the index is at least 32 and both index out of bounds.
\<close>

theorem component_table_bounds:
  assumes "registry s = snd (requests ks Registry_init)"
  shows "(card (set (ks @ [k])) \<le> maxComponents \<longrightarrow>
            (\<exists>res. addComponent k c e s = Inr res)
            \<and> fst (getComponent k e s) \<noteq> Inl OutOfBounds)
       \<and> (maxComponents \<le> card (set ks) \<and> k \<notin> set ks \<longrightarrow>
            addComponent k c e s = Inl OutOfBounds
            \<and> fst (getComponent k e s) = Inl OutOfBounds)"
proof (intro conjI impI)
  assume le: "card (set (ks @ [k])) \<le> maxComponents"
  have "index_of (first_use (ks @ [k])) k < length (first_use (ks @ [k]))"
    by (rule index_of_less) (simp add: set_first_use)
  with le have lt: "fst (getComponentTypeID_T k (registry s)) < maxComponents"
    by (simp only: assms request_after_requests length_first_use)
  then have "addComponent k c e s \<noteq> Inl OutOfBounds"
    by (simp add: addComponent_OutOfBounds)
  then show "\<exists>res. addComponent k c e s = Inr res"
    using addComponent_error [of k c e s] by (cases "addComponent k c e s") auto
  from lt show "fst (getComponent k e s) \<noteq> Inl OutOfBounds"
    by (simp add: getComponent_OutOfBounds)
next
  assume full: "maxComponents \<le> card (set ks) \<and> k \<notin> set ks"
  then have "index_of (first_use (ks @ [k])) k = card (set ks)"
    by (simp add: first_use_snoc index_of_append_notin set_first_use length_first_use)
  with full have ge: "\<not> fst (getComponentTypeID_T k (registry s)) < maxComponents"
    by (simp add: assms request_after_requests)
  then show "addComponent k c e s = Inl OutOfBounds"
    by (simp add: addComponent_OutOfBounds)
  from ge show "fst (getComponent k e s) = Inl OutOfBounds"
    by (simp add: getComponent_OutOfBounds)
qed

theorem component_table_bounds_witness:
  "card (set ([0, 1, 2] @ [1::nat])) \<le> maxComponents
   \<and> (\<exists>res. addComponent (1::nat) 100 (Entity_new 7)
          \<lparr>registry = snd (requests [0, 1, 2] Registry_init), trace = []\<rparr> = Inr res)
   \<and> fst (getComponent (1::nat) (Entity_new 7)
          \<lparr>registry = snd (requests [0, 1, 2] Registry_init), trace = []\<rparr>) \<noteq> Inl OutOfBounds
   \<and> maxComponents \<le> card (set [0..<32]) \<and> (32::nat) \<notin> set [0..<32]
   \<and> addComponent (32::nat) 100 (Entity_new 7)
          \<lparr>registry = snd (requests [0..<32] Registry_init), trace = []\<rparr> = Inl OutOfBounds
   \<and> fst (getComponent (32::nat) (Entity_new 7)
          \<lparr>registry = snd (requests [0..<32] Registry_init), trace = []\<rparr>) = Inl OutOfBounds"
proof -
  have h1: "card (set ([0, 1, 2] @ [1::nat])) \<le> maxComponents"
    unfolding List.card_set by (simp add: maxComponents_def)
  have h2: "maxComponents \<le> card (set [0..<32]) \<and> (32::nat) \<notin> set [0..<32]"
    by (simp add: maxComponents_def)
  let ?s1 = "\<lparr>registry = snd (requests [0, 1, 2] Registry_init), trace = []\<rparr> :: nat Proc"
  let ?s2 = "\<lparr>registry = snd (requests [0..<32] Registry_init), trace = []\<rparr> :: nat Proc"
  have r1: "registry ?s1 = snd (requests [0, 1, 2] Registry_init)" by simp
  have r2: "registry ?s2 = snd (requests [0..<32] Registry_init)" by simp
  from component_table_bounds [OF r1, of 1 100 "Entity_new 7"] h1
  have A: "(\<exists>res. addComponent 1 100 (Entity_new 7) ?s1 = Inr res)
      \<and> fst (getComponent 1 (Entity_new 7) ?s1) \<noteq> Inl OutOfBounds"
    by blast
  from component_table_bounds [OF r2, of 32 100 "Entity_new 7"] h2
  have B: "addComponent 32 100 (Entity_new 7) ?s2 = Inl OutOfBounds
      \<and> fst (getComponent 32 (Entity_new 7) ?s2) = Inl OutOfBounds"
    by blast
  from h1 h2 A B show ?thesis by blast
qed

section \<open>Removing inactive entities\<close>

lemma those_map_Some: "those (map Some xs) = Some xs"
  by (induction xs) simp_all

lemma filter_takeWhile_rest:
  "filter q xs = takeWhile q xs @ filter q (drop (Suc (length (takeWhile q xs))) xs)"
  by (induction xs) simp_all

lemma find_if_Some:
  "i \<le> length es \<Longrightarrow>
     find_if p (map Some es) i = Inr (i + length (takeWhile (\<lambda>x. \<not> p x) (drop i es)))"
proof (induction "length es - i" arbitrary: i)
  case 0
  then show ?case by (subst find_if.simps) simp
next
  case (Suc n)
  then have lt: "i < length es" by simp
  then have d: "drop i es = es ! i # drop (Suc i) es"
    by (simp add: Cons_nth_drop_Suc)
  from Suc.hyps(2) lt have "n = length es - Suc i" by simp
  moreover from lt have "Suc i \<le> length es" by simp
  ultimately have IH: "find_if p (map Some es) (Suc i)
      = Inr (Suc i + length (takeWhile (\<lambda>x. \<not> p x) (drop (Suc i) es)))"
    by (rule Suc.hyps(1))
  show ?case
    by (subst find_if.simps) (simp add: lt d IH)
qed

lemma remove_loop_Some:
  assumes "result < first" and "first \<le> length es" and "length v = length es"
    and "take result v = map Some ys" and "drop first v = map Some (drop first es)"
  shows "\<exists>v'. remove_loop p v result first
             = Inr (v', result + length (filter (\<lambda>x. \<not> p x) (drop first es)))
           \<and> length v' = length es
           \<and> take (result + length (filter (\<lambda>x. \<not> p x) (drop first es))) v'
               = map Some (ys @ filter (\<lambda>x. \<not> p x) (drop first es))"
  using assms
proof (induction "length es - first" arbitrary: v result first ys)
  case 0
  then have "first = length es" by simp
  with 0 show ?case by (subst remove_loop.simps) simp
next
  case (Suc n)
  then have lt: "first < length es" by simp
  let ?x = "es ! first"
  have d: "drop first es = ?x # drop (Suc first) es"
    using lt by (simp add: Cons_nth_drop_Suc)
  from Suc.prems(3) lt have ltv: "first < length v" by simp
  have "v ! first = drop first v ! 0" using ltv by simp
  also have "\<dots> = Some ?x" by (simp add: Suc.prems(5) d)
  finally have vx: "v ! first = Some ?x" .
  have "drop (Suc first) v = drop 1 (drop first v)" by simp
  also have "\<dots> = map Some (drop (Suc first) es)"
    by (simp only: Suc.prems(5) d) simp
  finally have dS: "drop (Suc first) v = map Some (drop (Suc first) es)" .
  from Suc.hyps(2) lt have n: "n = length es - Suc first" by simp
  from lt have le: "Suc first \<le> length es" by simp
  show ?case
  proof (cases "p ?x")
    case True
    from Suc.prems(1) have r: "result < Suc first" by simp
    from Suc.hyps(1) [OF n r le Suc.prems(3) Suc.prems(4) dS] True vx ltv d
    show ?thesis by (subst remove_loop.simps) simp
  next
    case False
    let ?v = "v[result := v ! first, first := None]"
    from Suc.prems(1) have r: "Suc result < Suc first" by simp
    have len: "length ?v = length es" by (simp add: Suc.prems(3))
    from Suc.prems(1) ltv have rv: "result < length v" by simp
    have "take (Suc result) ?v = take (Suc result) (v[result := v ! first])"
      using Suc.prems(1) by (simp add: take_update_cancel)
    also have "\<dots> = take result v @ [v ! first]"
      using rv by (simp add: take_Suc_conv_app_nth take_update_cancel)
    finally have tk: "take (Suc result) ?v = map Some (ys @ [?x])"
      by (simp add: Suc.prems(4) vx)
    have dr: "drop (Suc first) ?v = map Some (drop (Suc first) es)"
      using Suc.prems(1) by (simp add: dS drop_update_cancel)
    from Suc.hyps(1) [OF n r le len tk dr] False vx ltv d
    show ?thesis by (subst remove_loop.simps) simp
  qed
qed

lemma remove_if_erase:
  "\<exists>v n. remove_if p (map Some es) = Inr (v, n)
     \<and> erase v n (length v) = map Some (filter (\<lambda>x. \<not> p x) es)"
proof -
  let ?q = "\<lambda>x. \<not> p x"
  let ?f = "length (takeWhile ?q es)"
  have fi: "find_if p (map Some es) 0 = Inr ?f"
    using find_if_Some [of 0 es p] by simp
  have fle: "?f \<le> length es" by (rule length_takeWhile_le)
  show ?thesis
  proof (cases "?f = length es")
    case True
    then have "takeWhile ?q es = es"
      by (metis takeWhile_eq_take take_all order_refl)
    then have "filter ?q es = es"
      by (metis filter_takeWhile_rest True drop_all le_SucI order_refl filter.simps(1) append_Nil2)
    with True fi show ?thesis
      by (simp add: remove_if_def erase_def)
  next
    case False
    with fle have lt: "?f < length es" by simp
    have tk: "take ?f (map Some es) = map Some (takeWhile ?q es)"
      by (simp add: take_map takeWhile_eq_take [symmetric])
    have dr: "drop (Suc ?f) (map Some es) = map Some (drop (Suc ?f) es)"
      by (simp add: drop_map)
    from lt have le: "Suc ?f \<le> length es" by simp
    from remove_loop_Some [OF lessI le _ tk dr, where p = p]
    obtain v' where
      run: "remove_loop p (map Some es) ?f (Suc ?f)
              = Inr (v', ?f + length (filter ?q (drop (Suc ?f) es)))" and
      len: "length v' = length es" and
      res: "take (?f + length (filter ?q (drop (Suc ?f) es))) v'
              = map Some (takeWhile ?q es @ filter ?q (drop (Suc ?f) es))"
      by auto
    from res have "take (?f + length (filter ?q (drop (Suc ?f) es))) v'
        = map Some (filter ?q es)"
      by (simp only: filter_takeWhile_rest [symmetric])
    with fi False run show ?thesis
      by (simp add: remove_if_def erase_def)
  qed
qed

lemma refresh_filter: "refresh m = Inr (m\<lparr>entities := filter isActive (entities m)\<rparr>)"
proof -
  obtain v n where
    "remove_if (\<lambda>e. \<not> isActive e) (map Some (entities m)) = Inr (v, n)" and
    "erase v n (length v) = map Some (filter (\<lambda>x. \<not> \<not> isActive x) (entities m))"
    using remove_if_erase [of "\<lambda>e. \<not> isActive e" "entities m"] by blast
  then show ?thesis by (simp add: refresh_def those_map_Some)
qed

text \<open>
  Claim C3. \<open>refresh\<close> returns, and the vector it leaves holds the active entities of
  the vector before, in their order: exactly the entities whose \<open>isActive\<close> is false
  are gone. From \<open>[A, B, C]\<close> with only \<open>B\<close> inactive it leaves \<open>[A, C]\<close>, and the
  components reachable from the manager are then those of \<open>A\<close> and \<open>C\<close>.
\<close>

theorem refresh_removes_inactive:
  "refresh m = Inr (m\<lparr>entities := filter isActive (entities m)\<rparr>)
   \<and> (isActive A \<and> \<not> isActive B \<and> isActive C \<longrightarrow>
        refresh \<lparr>entities = [A, B, C]\<rparr> = Inr \<lparr>entities = [A, C]\<rparr>
        \<and> map_sum id Manager_components (refresh \<lparr>entities = [A, B, C]\<rparr>)
            = Inr (components A @ components C))"
proof (intro conjI impI)
  show "refresh m = Inr (m\<lparr>entities := filter isActive (entities m)\<rparr>)"
    by (rule refresh_filter)
next
  assume h: "isActive A \<and> \<not> isActive B \<and> isActive C"
  then have f: "filter isActive [A, B, C] = [A, C]" by simp
  have "refresh \<lparr>entities = [A, B, C]\<rparr>
      = Inr (\<lparr>entities = [A, B, C]\<rparr>\<lparr>entities := filter isActive [A, B, C]\<rparr>)"
    using refresh_filter [of "\<lparr>entities = [A, B, C]\<rparr>"] by simp
  with f show r: "refresh \<lparr>entities = [A, B, C]\<rparr> = Inr \<lparr>entities = [A, C]\<rparr>"
    by simp
  then show "map_sum id Manager_components (refresh \<lparr>entities = [A, B, C]\<rparr>)
      = Inr (components A @ components C)"
    by (simp add: Manager_components_def)
qed

theorem refresh_removes_inactive_witness:
  "isActive (Entity_new 1 :: string Entity) \<and> \<not> isActive (destroy (Entity_new 2 :: string Entity))
   \<and> isActive (Entity_new 3 :: string Entity)
   \<and> refresh \<lparr>entities = [Entity_new 1, destroy (Entity_new 2), Entity_new 3 :: string Entity]\<rparr>
       = Inr \<lparr>entities = [Entity_new 1, Entity_new 3]\<rparr>"
proof -
  have h: "isActive (Entity_new 1 :: string Entity)
      \<and> \<not> isActive (destroy (Entity_new 2 :: string Entity))
      \<and> isActive (Entity_new 3 :: string Entity)"
    by (simp add: isActive_def destroy_def Entity_new_def)
  from refresh_removes_inactive [of _ "Entity_new 1 :: string Entity"
      "destroy (Entity_new 2)" "Entity_new 3"] h
  show ?thesis by blast
qed

text \<open>
  Claim C10. \<open>refresh\<close> always returns; every entity it leaves is active, and a second
  \<open>refresh\<close> right after it returns the same manager.
\<close>

theorem refresh_idempotent:
  "(\<exists>m'. refresh m = Inr m')
   \<and> (refresh m = Inr m' \<longrightarrow> list_all isActive (entities m') \<and> refresh m' = Inr m')"
proof (intro conjI impI)
  show "\<exists>m'. refresh m = Inr m'" by (simp add: refresh_filter)
next
  assume "refresh m = Inr m'"
  then have m': "m' = m\<lparr>entities := filter isActive (entities m)\<rparr>"
    by (simp add: refresh_filter)
  then show "list_all isActive (entities m')" by (simp add: list_all_iff)
  from m' show "refresh m' = Inr m'" by (simp add: refresh_filter)
qed

theorem refresh_idempotent_witness:
  "refresh \<lparr>entities = [Entity_new 1, destroy (Entity_new 2), Entity_new 3 :: string Entity]\<rparr>
       = Inr \<lparr>entities = [Entity_new 1, Entity_new 3]\<rparr>
   \<and> list_all isActive (entities \<lparr>entities = [Entity_new 1, Entity_new 3 :: string Entity]\<rparr>)
   \<and> refresh \<lparr>entities = [Entity_new 1, Entity_new 3 :: string Entity]\<rparr>
       = Inr \<lparr>entities = [Entity_new 1, Entity_new 3]\<rparr>"
proof -
  have h: "refresh \<lparr>entities = [Entity_new 1, destroy (Entity_new 2), Entity_new 3 :: string Entity]\<rparr>
       = Inr \<lparr>entities = [Entity_new 1, Entity_new 3]\<rparr>"
    by (simp add: refresh_def remove_if_def find_if.simps remove_loop.simps erase_def
        isActive_def destroy_def Entity_new_def)
  from refresh_idempotent
    [of "\<lparr>entities = [Entity_new 1, destroy (Entity_new 2), Entity_new 3 :: string Entity]\<rparr>"
        "\<lparr>entities = [Entity_new 1, Entity_new 3]\<rparr>"] h
  show ?thesis by blast
qed

section \<open>Update and draw passes\<close>

lemma foldl_Component_update:
  "foldl (\<lambda>t c. Component_update c t) tr cs = tr @ map (\<lambda>c. CUpdate (addr c)) cs"
  by (induction cs arbitrary: tr) (simp_all add: Component_update_def)

lemma foldl_Component_draw:
  "foldl (\<lambda>t c. Component_draw c t) tr cs = tr @ map (\<lambda>c. CDraw (addr c)) cs"
  by (induction cs arbitrary: tr) (simp_all add: Component_draw_def)

lemma Entity_update_trace:
  "Entity_update e tr = tr @ EUpdate (self e) # map (\<lambda>c. CUpdate (addr c)) (components e)"
  by (simp add: Entity_update_def foldl_Component_update)

lemma Entity_draw_trace:
  "Entity_draw e tr = tr @ EDraw (self e) # map (\<lambda>c. CDraw (addr c)) (components e)"
  by (simp add: Entity_draw_def foldl_Component_draw)

lemma entity_step_components:
  "entity_step f b x (e, s) = Inr (e', s') \<Longrightarrow>
     map addr (components e') = map addr (components e) @ added [x] \<and> self e' = self e"
  by (cases x)
    (auto simp: destroy_def addComponent_def getComponent_def Let_def
      split: sum.splits prod.splits if_splits option.splits)

lemma added_Cons: "added (x # xs) = added [x] @ added xs"
  by (cases x) simp_all

lemma entity_run_components:
  "entity_run f b xs (e, s) = Inr (e', s') \<Longrightarrow>
     map addr (components e') = map addr (components e) @ added xs \<and> self e' = self e"
proof (induction xs arbitrary: e s)
  case Nil
  then show ?case by simp
next
  case (Cons x xs)
  from Cons.prems obtain e1 s1 where
    step: "entity_step f b x (e, s) = Inr (e1, s1)" and
    rest: "entity_run f b xs (e1, s1) = Inr (e', s')"
    by (auto split: sum.splits)
  from entity_step_components [OF step] Cons.IH [OF rest] added_Cons [of x xs]
  show ?case by simp
qed

text \<open>
  Claim C7. \<open>Entity_update\<close> calls \<^verbatim>\<open>update()\<close> on every owned component in the order of
  the vector, and \<open>Entity_draw\<close> does the same with \<^verbatim>\<open>draw()\<close>; a destroyed entity
  makes the same calls. After any sequence of calls of the interface that returns, also
  one with \<open>destroy\<close> in it, the vector holds the components the entity had before
  followed by those attached since, in the order of the \<open>addComponent\<close> calls, and that
  is the order of the hook calls.
\<close>

theorem entity_update_draw_order:
  "Entity_update e tr = tr @ EUpdate (self e) # map (\<lambda>c. CUpdate (addr c)) (components e)
   \<and> Entity_draw e tr = tr @ EDraw (self e) # map (\<lambda>c. CDraw (addr c)) (components e)
   \<and> Entity_update (destroy e) tr = Entity_update e tr
   \<and> Entity_draw (destroy e) tr = Entity_draw e tr
   \<and> (entity_run f b xs (e, s) = Inr (e', s') \<longrightarrow>
        map addr (components e') = map addr (components e) @ added xs
        \<and> Entity_update e' tr = tr @ EUpdate (self e) # map CUpdate (map addr (components e) @ added xs)
        \<and> Entity_draw e' tr = tr @ EDraw (self e) # map CDraw (map addr (components e) @ added xs))"
proof (intro conjI impI)
  show "Entity_update e tr = tr @ EUpdate (self e) # map (\<lambda>c. CUpdate (addr c)) (components e)"
    by (rule Entity_update_trace)
  show "Entity_draw e tr = tr @ EDraw (self e) # map (\<lambda>c. CDraw (addr c)) (components e)"
    by (rule Entity_draw_trace)
  show "Entity_update (destroy e) tr = Entity_update e tr"
    by (simp add: Entity_update_def destroy_def)
  show "Entity_draw (destroy e) tr = Entity_draw e tr"
    by (simp add: Entity_draw_def destroy_def)
next
  assume run: "entity_run f b xs (e, s) = Inr (e', s')"
  from entity_run_components [OF run]
  have cs: "map addr (components e') = map addr (components e) @ added xs"
    and self: "self e' = self e" by simp_all
  show "map addr (components e') = map addr (components e) @ added xs" by (rule cs)
  have "map (\<lambda>c. CUpdate (addr c)) (components e') = map CUpdate (map addr (components e'))"
    by simp
  then show "Entity_update e' tr
      = tr @ EUpdate (self e) # map CUpdate (map addr (components e) @ added xs)"
    by (simp only: Entity_update_trace self cs)
  have "map (\<lambda>c. CDraw (addr c)) (components e') = map CDraw (map addr (components e'))"
    by simp
  then show "Entity_draw e' tr
      = tr @ EDraw (self e) # map CDraw (map addr (components e) @ added xs)"
    by (simp only: Entity_draw_trace self cs)
qed

theorem entity_update_draw_order_witness:
  "\<exists>e' s'. entity_run (\<lambda>_. 1) (\<lambda>w. w \<noteq> 0)
        [OpAddComponent ''X'' 10, OpAddComponent ''Y'' 11, OpDestroy, OpAddComponent ''Z'' 12]
        (Entity_new 1, Proc_init) = Inr (e', s')
     \<and> map addr (components e') = [10, 11, 12]
     \<and> Entity_update e' [] = [EUpdate 1, CUpdate 10, CUpdate 11, CUpdate 12]
     \<and> Entity_draw e' [] = [EDraw 1, CDraw 10, CDraw 11, CDraw 12]"
proof -
  let ?xs = "[OpAddComponent ''X'' 10, OpAddComponent ''Y'' 11, OpDestroy, OpAddComponent ''Z'' 12]"
  obtain e' s' where run:
    "entity_run (\<lambda>_. 1) (\<lambda>w. w \<noteq> 0) ?xs (Entity_new 1, Proc_init) = Inr (e', s')"
    by (simp add: addComponent_def getComponentTypeID_T_def getComponentTypeID_def
        Proc_init_def Registry_init_def maxComponents_def Let_def)
  from entity_update_draw_order
    [of "Entity_new 1" "[]" "\<lambda>_. 1" "\<lambda>w. w \<noteq> 0" ?xs Proc_init e' s'] run
  have "map addr (components e') = [10, 11, 12]
      \<and> Entity_update e' [] = [EUpdate 1, CUpdate 10, CUpdate 11, CUpdate 12]
      \<and> Entity_draw e' [] = [EDraw 1, CDraw 10, CDraw 11, CDraw 12]"
    by (simp add: Entity_new_def)
  with run show ?thesis
    by (intro exI [of _ e'] exI [of _ s']) simp
qed

lemma foldl_Entity_update:
  "foldl (\<lambda>t e. Entity_update e t) tr es = tr @ concat (map (\<lambda>e. Entity_update e []) es)"
proof (induction es arbitrary: tr)
  case Nil
  then show ?case by simp
next
  case (Cons e es)
  have "Entity_update e tr = tr @ Entity_update e []"
    by (simp add: Entity_update_trace)
  with Cons show ?case by simp
qed

lemma foldl_Entity_draw:
  "foldl (\<lambda>t e. Entity_draw e t) tr es = tr @ concat (map (\<lambda>e. Entity_draw e []) es)"
proof (induction es arbitrary: tr)
  case Nil
  then show ?case by simp
next
  case (Cons e es)
  have "Entity_draw e tr = tr @ Entity_draw e []"
    by (simp add: Entity_draw_trace)
  with Cons show ?case by simp
qed

lemma entity_updates_append: "entity_updates (xs @ ys) = entity_updates xs @ entity_updates ys"
  by (induction xs rule: entity_updates.induct) simp_all

lemma entity_draws_append: "entity_draws (xs @ ys) = entity_draws xs @ entity_draws ys"
  by (induction xs rule: entity_draws.induct) simp_all

lemma entity_updates_CUpdate: "entity_updates (map (\<lambda>c. CUpdate (addr c)) cs) = []"
  by (induction cs) simp_all

lemma entity_draws_CDraw: "entity_draws (map (\<lambda>c. CDraw (addr c)) cs) = []"
  by (induction cs) simp_all

lemma update_pass_events:
  "list_all update_event (concat (map (\<lambda>e. Entity_update e []) es))
   \<and> entity_updates (concat (map (\<lambda>e. Entity_update e []) es)) = map self es"
  by (induction es)
    (auto simp: Entity_update_trace entity_updates_append entity_updates_CUpdate
      list_all_iff)

lemma draw_pass_events:
  "list_all draw_event (concat (map (\<lambda>e. Entity_draw e []) es))
   \<and> entity_draws (concat (map (\<lambda>e. Entity_draw e []) es)) = map self es"
  by (induction es)
    (auto simp: Entity_draw_trace entity_draws_append entity_draws_CDraw
      list_all_iff)

text \<open>
  Claim C8. \<open>Manager_update\<close> runs \<open>Entity_update\<close> on every entity of the vector in
  storage order, whatever its flag, and \<open>Manager_draw\<close> does so with \<open>Entity_draw\<close>.
  The update pass followed by the draw pass (\<^verbatim>\<open>game->update(); game->render();\<close> in
  main.cpp) extends the log by a block of update calls, one \<^verbatim>\<open>Entity::update\<close> per entity
  in storage order, followed by a block of draw calls, one \<^verbatim>\<open>Entity::draw\<close> per entity
  in the same order: no draw call comes before an update call.
\<close>

theorem manager_tick_two_phase:
  "Manager_update m tr = tr @ concat (map (\<lambda>e. Entity_update e []) (entities m))
   \<and> Manager_draw m tr = tr @ concat (map (\<lambda>e. Entity_draw e []) (entities m))
   \<and> (\<exists>us ds. Manager_draw m (Manager_update m tr) = tr @ us @ ds
        \<and> list_all update_event us \<and> entity_updates us = map self (entities m)
        \<and> list_all draw_event ds \<and> entity_draws ds = map self (entities m))"
proof (intro conjI)
  show u: "Manager_update m tr = tr @ concat (map (\<lambda>e. Entity_update e []) (entities m))"
    by (simp add: Manager_update_def foldl_Entity_update)
  show d: "Manager_draw m tr = tr @ concat (map (\<lambda>e. Entity_draw e []) (entities m))"
    by (simp add: Manager_draw_def foldl_Entity_draw)
  let ?us = "concat (map (\<lambda>e. Entity_update e []) (entities m))"
  let ?ds = "concat (map (\<lambda>e. Entity_draw e []) (entities m))"
  have "Manager_draw m (Manager_update m tr) = tr @ ?us @ ?ds"
    by (simp add: Manager_update_def Manager_draw_def foldl_Entity_update foldl_Entity_draw)
  with update_pass_events [of "entities m"] draw_pass_events [of "entities m"]
  show "\<exists>us ds. Manager_draw m (Manager_update m tr) = tr @ us @ ds
        \<and> list_all update_event us \<and> entity_updates us = map self (entities m)
        \<and> list_all draw_event ds \<and> entity_draws ds = map self (entities m)"
    by blast
qed

section \<open>Attaching and looking up components\<close>

lemma getComponentTypeID_T_again:
  "getComponentTypeID_T k r = (i, r1) \<Longrightarrow> getComponentTypeID_T k r1 = (i, r1)"
  by (auto simp: getComponentTypeID_T_def getComponentTypeID_def split: option.splits)

lemma addComponent_Inr:
  assumes "addComponent k c e s = Inr (p, e', s')"
  shows "\<exists>i. i < maxComponents \<and> getComponentTypeID_T k (registry s) = (i, registry s')
           \<and> p = c
           \<and> e' = e\<lparr>components := components e @ [\<lparr>addr = c, kind = k, entity = Some (self e)\<rparr>],
                     componentArray := (componentArray e)(i := Some c),
                     componentBitSet := set_bit i (componentBitSet e)\<rparr>"
proof -
  obtain i r1 where g: "getComponentTypeID_T k (registry s) = (i, r1)"
    by (cases "getComponentTypeID_T k (registry s)")
  from getComponentTypeID_T_again [OF g] have g': "getComponentTypeID_T k r1 = (i, r1)" .
  from assms g g' show ?thesis
    by (auto simp: addComponent_def Let_def split: if_splits)
qed






lemma bit_set_getComponent:
  assumes "index_agrees e" and "typeID (registry s) k = Some i" and "i < maxComponents"
    and "bit (componentBitSet e) i"
  shows "\<exists>p. getComponent k e s = (Inr p, s)"
proof -
  from assms(1,3,4) have "componentArray e i \<noteq> None"
    by (auto simp: index_agrees_def list_all_iff)
  with assms(2,3) show ?thesis
    by (auto simp: getComponent_def getComponentTypeID_T_def)
qed

text \<open>
  Claim C2. \<open>hasComponent\<close> gives the same answer on any two entities. With two
  entities added to a new manager and \<^verbatim>\<open>Position\<close> attached to the first only, the bit of
  the kind is set in the first entity and the bitset of the second is empty, and
  \<open>hasComponent\<close> still answers the same on both.
\<close>

theorem hasComponent_ignores_entity:
  "hasComponent f b e k = hasComponent f b e' k
   \<and> (\<exists>e1 s1. addComponent ''Position'' 100 (fst (addEntity 1 Manager_new)) Proc_init
                 = Inr (100, e1, s1)
        \<and> bit (componentBitSet e1) (0::nat)
        \<and> componentBitSet (fst (addEntity 2 (snd (addEntity 1 Manager_new))) :: string Entity) = 0
        \<and> hasComponent f b e1 ''Position''
            = hasComponent f b (fst (addEntity 2 (snd (addEntity 1 Manager_new)))) ''Position'')"
proof
  show "hasComponent f b e k = hasComponent f b e' k"
    by (simp add: hasComponent_def)
next
  let ?e = "fst (addEntity 1 Manager_new) :: string Entity"
  obtain e1 s1 where add:
    "addComponent ''Position'' 100 ?e Proc_init = Inr (100, e1, s1)"
    by (simp add: addComponent_def getComponentTypeID_T_def getComponentTypeID_def
        Proc_init_def Registry_init_def maxComponents_def Let_def)
  from addComponent_Inr [OF add] obtain i where
    g: "getComponentTypeID_T ''Position'' (registry (Proc_init :: string Proc)) = (i, registry s1)"
    and b: "componentBitSet e1 = set_bit i (componentBitSet ?e)"
    by auto
  from g have "i = 0"
    by (simp add: getComponentTypeID_T_def getComponentTypeID_def Proc_init_def
        Registry_init_def)
  with b have bit: "bit (componentBitSet e1) (0::nat)"
    by (simp add: bit_set_bit_iff)
  have zero: "componentBitSet (fst (addEntity 2 (snd (addEntity 1 Manager_new))) :: string Entity) = 0"
    by (simp add: addEntity_def Entity_new_def)
  have "hasComponent f b e1 ''Position''
      = hasComponent f b (fst (addEntity 2 (snd (addEntity 1 Manager_new)))) ''Position''"
    by (simp add: hasComponent_def)
  with add bit zero show "\<exists>e1 s1. addComponent ''Position'' 100 ?e Proc_init = Inr (100, e1, s1)
        \<and> bit (componentBitSet e1) (0::nat)
        \<and> componentBitSet (fst (addEntity 2 (snd (addEntity 1 Manager_new))) :: string Entity) = 0
        \<and> hasComponent f b e1 ''Position''
            = hasComponent f b (fst (addEntity 2 (snd (addEntity 1 Manager_new)))) ''Position''"
    by (intro exI [of _ e1] exI [of _ s1]) simp
qed

section \<open>What the bitset records\<close>










end
